theory Spec2Isabelle
  imports Complex_Main
begin

section \<open>WaVeS: the slider-to-audio-session mapping engine of \<open>control.py\<close>\<close>

text \<open>
  The development embeds class \<open>Control\<close> of \<open>control.py\<close>: the configuration lookup
  \<open>get_setting\<close>, the mapping resolver \<open>get_mapping\<close> and the volume dispatcher
  \<open>set_volume\<close>. Python strings are character lists over the ASCII range, Python
  dictionaries are association lists in insertion order, and a raised exception is the
  left injection of a sum.
\<close>

subsection \<open>Python built-ins used by the module\<close>

datatype error = IndexError | VolumeSetError

text \<open>\<open>xs[i]\<close> for a non-negative index: out of range raises \<open>IndexError\<close>.\<close>

fun py_index :: "'a list \<Rightarrow> nat \<Rightarrow> error + 'a" where
  "py_index [] i = Inl IndexError"
| "py_index (x # xs) 0 = Inr x"
| "py_index (x # xs) (Suc i) = py_index xs i"

text \<open>\<open>s.startswith(sub)\<close> and the substring test \<open>sub in s\<close>.\<close>

fun startswith :: "string \<Rightarrow> string \<Rightarrow> bool" where
  "startswith s [] = True"
| "startswith [] (c # sub) = False"
| "startswith (d # s) (c # sub) = (d = c \<and> startswith s sub)"

fun str_contains :: "string \<Rightarrow> string \<Rightarrow> bool" where
  "str_contains sub [] = (sub = [])"
| "str_contains sub (c # s) = (startswith (c # s) sub \<or> str_contains sub s)"

text \<open>\<open>s.split(sep)\<close> for a one-character separator: never empty, \<open>''.split(':') == ['']\<close>.\<close>

fun split_str :: "char \<Rightarrow> string \<Rightarrow> string list" where
  "split_str sep [] = [[]]"
| "split_str sep (c # s) =
     (if c = sep then [] # split_str sep s
      else (case split_str sep s of
              [] \<Rightarrow> [[c]]
            | w # ws \<Rightarrow> (c # w) # ws))"

text \<open>\<open>s.strip()\<close>: the ASCII characters for which \<open>str.isspace\<close> holds are removed at both ends.\<close>

definition isspace :: "char \<Rightarrow> bool" where
  "isspace c = (c \<in> set [CHR 0x09, CHR 0x0A, CHR 0x0B, CHR 0x0C, CHR 0x0D,
                          CHR 0x1C, CHR 0x1D, CHR 0x1E, CHR 0x1F, CHR 0x20])"

definition strip :: "string \<Rightarrow> string" where
  "strip s = rev (dropWhile isspace (rev (dropWhile isspace s)))"

text \<open>\<open>s.lower()\<close> on ASCII text.\<close>

definition lower_char :: "char \<Rightarrow> char" where
  "lower_char c =
     (case map_of (zip ''ABCDEFGHIJKLMNOPQRSTUVWXYZ'' ''abcdefghijklmnopqrstuvwxyz'') c of
        None \<Rightarrow> c
      | Some d \<Rightarrow> d)"

definition lower :: "string \<Rightarrow> string" where
  "lower s = map lower_char s"

text \<open>\<open>str(n)\<close> for a non-negative integer: its decimal digits.\<close>

definition digit_char :: "nat \<Rightarrow> char" where
  "digit_char d = ''0123456789'' ! d"

fun str :: "nat \<Rightarrow> string" where
  "str n = (if n < 10 then [digit_char n] else str (n div 10) @ [digit_char (n mod 10)])"

declare str.simps [simp del]

text \<open>
  A dictionary keeps its keys in insertion order; assigning to a key that is present
  replaces the value where the key stands, assigning to a new key appends it.
  Lookup is \<^const>\<open>map_of\<close>.
\<close>

fun dict_set :: "('k \<times> 'v) list \<Rightarrow> 'k \<Rightarrow> 'v \<Rightarrow> ('k \<times> 'v) list" where
  "dict_set [] k v = [(k, v)]"
| "dict_set ((k', v') # d) k v =
     (if k' = k then (k, v) # d else (k', v') # dict_set d k v)"

subsection \<open>Data\<close>

text \<open>
  An audio session as \<open>AudioUtilities.GetAllSessions()\<close> returns it. Sessions are compared
  by object identity in the source (\<open>ses not in mapped_sessions\<close>), which the field
  \<open>handle\<close> carries: two records are equal exactly when they are the same object.
  \<open>Process_name\<close> is \<open>None\<close> when \<open>session.Process is None\<close>, and \<open>session.Process.name()\<close> otherwise.
\<close>

record audio_session =
  handle :: nat
  Process_name :: "string option"
  DisplayName :: string

text \<open>The objects of module \<open>sessions\<close> that \<open>get_mapping\<close> constructs, with their arguments.\<close>

datatype session_obj =
    Master nat
  | System nat audio_session
  | Session nat audio_session
  | SessionGroup nat "audio_session list"

text \<open>A key of \<open>target_idxs\<close>: a \<open>str\<close>, or a \<open>tuple\<close> of them when the setting has a comma.\<close>

datatype target = Str string | Tuple "string list"

text \<open>The fields of a \<open>Control\<close> object that the mapping engine reads or writes.\<close>

record control =
  lines :: "string list"
  sliders :: int
  inverted :: bool
  target_idxs :: "(target \<times> nat) list"
  found_pycaw_sessions :: "audio_session list"
  sessions :: "(nat \<times> session_obj) list"

subsection \<open>Configuration lookup\<close>

text \<open>\<open>load_config\<close>: the text of the file, split at newlines.\<close>

definition load_config :: "string \<Rightarrow> control \<Rightarrow> control" where
  "load_config text c = c\<lparr>lines := split_str CHR 0x0A text\<rparr>"

text \<open>
  \<open>get_setting\<close>: the first line that contains \<open>text + ":"\<close>; of that line, the second
  piece between colons, stripped. No such line: \<open>[0]\<close> raises \<open>IndexError\<close>.
\<close>

definition get_setting :: "string list \<Rightarrow> string \<Rightarrow> error + string" where
  "get_setting ls text =
     (case filter (str_contains (text @ '':'')) ls of
        [] \<Rightarrow> Inl IndexError
      | setting # _ \<Rightarrow>
          (case py_index (split_str CHR '':'' setting) 1 of
             Inl e \<Rightarrow> Inl e
           | Inr v \<Rightarrow> Inr (strip v)))"

text \<open>Line 78 of \<open>__init__\<close>: \<open>self.inverted = self.get_setting("inverted") in ["True", "true"]\<close>.\<close>

definition init_inverted :: "string list \<Rightarrow> error + bool" where
  "init_inverted ls =
     (case get_setting ls ''inverted'' of
        Inl e \<Rightarrow> Inl e
      | Inr v \<Rightarrow> Inr (v \<in> set [''True'', ''true'']))"

subsection \<open>The mapping resolver\<close>

text \<open>The key under which one setting is stored: lines 103 and 104.\<close>

definition target_key :: "string \<Rightarrow> target" where
  "target_key application_str =
     (if CHR '','' \<in> set application_str
      then Tuple (map strip (split_str CHR '','' application_str))
      else Str application_str)"

text \<open>The loop of lines 101 to 105 over the indices still to do.\<close>

fun collect_targets ::
  "string list \<Rightarrow> nat list \<Rightarrow> (target \<times> nat) list \<Rightarrow> error + (target \<times> nat) list" where
  "collect_targets ls [] tis = Inr tis"
| "collect_targets ls (idx # idxs) tis =
     (case get_setting ls (str idx) of
        Inl e \<Rightarrow> Inl e
      | Inr application_str \<Rightarrow>
          collect_targets ls idxs (dict_set tis (target_key application_str) idx))"

text \<open>\<open>active_sessions\<close>: lower-cased process name to session, a later session of the same name replacing the earlier.\<close>

definition active_sessions_of :: "audio_session list \<Rightarrow> (string \<times> audio_session) list" where
  "active_sessions_of found =
     foldl (\<lambda>d session. case Process_name session of
                           None \<Rightarrow> d
                         | Some name \<Rightarrow> dict_set d (lower name) session) [] found"

text \<open>\<open>system_session\<close>: the first session whose display name contains \<open>SystemRoot\<close>.\<close>

definition system_session_of :: "audio_session list \<Rightarrow> error + audio_session" where
  "system_session_of found =
     (case filter (\<lambda>session. str_contains ''SystemRoot'' (DisplayName session)) found of
        [] \<Rightarrow> Inl IndexError
      | session # _ \<Rightarrow> Inr session)"

text \<open>
  The inner loop of lines 136 to 147 over the names of a tuple; the state is
  \<open>(active_sessions_in_group, mapped_sessions)\<close>.
\<close>

fun resolve_group ::
  "(string \<times> audio_session) list \<Rightarrow> string list \<Rightarrow>
   audio_session list \<times> audio_session list \<Rightarrow> audio_session list \<times> audio_session list" where
  "resolve_group active [] st = st"
| "resolve_group active (target_app # rest) (in_group, mapped) =
     (if lower target_app \<in> set [''master'', ''system'', ''unmapped'']
      then resolve_group active rest (in_group, mapped)
      else (case map_of active (lower target_app) of
              None \<Rightarrow> resolve_group active rest (in_group, mapped)
            | Some session \<Rightarrow>
                resolve_group active rest (in_group @ [session], mapped @ [session])))"

text \<open>
  One round of the loop of lines 116 to 152; the state is \<open>(session_dict, mapped_sessions)\<close>.
  A value of \<open>active_sessions\<close> is never \<open>None\<close>, so the test of line 129 is the test of line 127.
\<close>

fun resolve_target ::
  "(string \<times> audio_session) list \<Rightarrow> audio_session \<Rightarrow> target \<times> nat \<Rightarrow>
   (nat \<times> session_obj) list \<times> audio_session list \<Rightarrow>
   (nat \<times> session_obj) list \<times> audio_session list" where
  "resolve_target active system_session (Str target, idx) (session_dict, mapped) =
     (if lower target = ''master'' then (dict_set session_dict idx (Master idx), mapped)
      else if lower target = ''system''
        then (dict_set session_dict idx (System idx system_session), mapped @ [system_session])
      else if lower target \<noteq> ''unmapped''
        then (case map_of active (lower target) of
                None \<Rightarrow> (session_dict, mapped)
              | Some session \<Rightarrow>
                  (dict_set session_dict idx (Session idx session), mapped @ [session]))
      else (session_dict, mapped))"
| "resolve_target active system_session (Tuple target, idx) (session_dict, mapped) =
     (case resolve_group active target ([], mapped) of
        (in_group, mapped') \<Rightarrow>
          (if length in_group > 0
           then dict_set session_dict idx (SessionGroup idx in_group)
           else session_dict, mapped'))"

definition resolve_targets ::
  "(string \<times> audio_session) list \<Rightarrow> audio_session \<Rightarrow> (target \<times> nat) list \<Rightarrow>
   (nat \<times> session_obj) list \<times> audio_session list" where
  "resolve_targets active system_session tis =
     foldl (\<lambda>st ti. resolve_target active system_session ti st) ([], []) tis"

text \<open>Lines 154 to 163: the group of the sessions nothing else has claimed.\<close>

definition resolve_unmapped ::
  "string list \<Rightarrow> (target \<times> nat) list \<Rightarrow> (string \<times> audio_session) list \<Rightarrow> audio_session \<Rightarrow>
   (nat \<times> session_obj) list \<times> audio_session list \<Rightarrow> error + (nat \<times> session_obj) list" where
  "resolve_unmapped ls tis active system_session st =
     (case st of (session_dict, mapped) \<Rightarrow>
        (case map_of tis (Str ''unmapped'') of
           None \<Rightarrow> Inr session_dict
         | Some unmapped_idx \<Rightarrow>
             (let unmapped_sessions = filter (\<lambda>ses. ses \<notin> set mapped) (map snd active)
              in case get_setting ls ''system in unmapped'' of
                   Inl e \<Rightarrow> Inl e
                 | Inr v \<Rightarrow>
                     (let unmapped_sessions =
                            (if lower v = ''false'' \<and> system_session \<in> set unmapped_sessions
                             then remove1 system_session unmapped_sessions
                             else unmapped_sessions)
                      in Inr (dict_set session_dict unmapped_idx
                                (SessionGroup unmapped_idx unmapped_sessions))))))"

text \<open>
  \<open>get_mapping\<close>, given the text of the configuration file and the sessions that
  \<open>AudioUtilities.GetAllSessions()\<close> returns. The fields assigned before a raise are not
  kept in the error result.
\<close>

definition get_mapping :: "string \<Rightarrow> audio_session list \<Rightarrow> control \<Rightarrow> error + control" where
  "get_mapping text found c =
     (let c = load_config text c
      in case collect_targets (lines c) [0..<nat (sliders c)] [] of
           Inl e \<Rightarrow> Inl e
         | Inr tis \<Rightarrow>
             (let c = c\<lparr>target_idxs := tis, found_pycaw_sessions := found\<rparr>;
                  active = active_sessions_of (found_pycaw_sessions c)
              in case system_session_of (found_pycaw_sessions c) of
                   Inl e \<Rightarrow> Inl e
                 | Inr system_session \<Rightarrow>
                     (case resolve_unmapped (lines c) (target_idxs c) active system_session
                             (resolve_targets active system_session (target_idxs c)) of
                        Inl e \<Rightarrow> Inl e
                      | Inr session_dict \<Rightarrow> Inr (c\<lparr>sessions := session_dict\<rparr>))))"

subsection \<open>The volume dispatcher\<close>

text \<open>Lines 194 to 196: the volume for one raw value.\<close>

definition volume_of :: "bool \<Rightarrow> int \<Rightarrow> real" where
  "volume_of inverted_flag v = (let volume = real_of_int v / 1023 in if inverted_flag then 1 - volume else volume)"

text \<open>
  \<open>app.set_volume(volume)\<close> belongs to module \<open>sessions\<close> and acts on the operating
  system: it is a parameter \<open>app_set_volume\<close>, from the object, the volume and the state
  of the audio system to the new state and the exception raised, if any.
  The loop of lines 193 to 197 stops at the first exception, of \<open>values[index]\<close> or of the call.
\<close>

fun set_volume_items ::
  "(session_obj \<Rightarrow> real \<Rightarrow> 'os \<Rightarrow> 'os \<times> error option) \<Rightarrow> bool \<Rightarrow> int list \<Rightarrow>
   (nat \<times> session_obj) list \<Rightarrow> 'os \<Rightarrow> 'os \<times> error option" where
  "set_volume_items app_set_volume inverted_flag values [] os = (os, None)"
| "set_volume_items app_set_volume inverted_flag values ((index, app) # rest) os =
     (case py_index values index of
        Inl e \<Rightarrow> (os, Some e)
      | Inr v \<Rightarrow>
          (case app_set_volume app (volume_of inverted_flag v) os of
             (os', Some e) \<Rightarrow> (os', Some e)
           | (os', None) \<Rightarrow> set_volume_items app_set_volume inverted_flag values rest os'))"

definition set_volume ::
  "(session_obj \<Rightarrow> real \<Rightarrow> 'os \<Rightarrow> 'os \<times> error option) \<Rightarrow> control \<Rightarrow> int list \<Rightarrow>
   'os \<Rightarrow> 'os \<times> error option" where
  "set_volume app_set_volume c values os =
     set_volume_items app_set_volume (inverted c) values (sessions c) os"

text \<open>An audio system that records every call and never fails.\<close>

definition record_call :: "session_obj \<Rightarrow> real \<Rightarrow> (session_obj \<times> real) list \<Rightarrow>
    (session_obj \<times> real) list \<times> error option" where
  "record_call app volume calls = (calls @ [(app, volume)], None)"

text \<open>An audio system in which the calls on the objects of \<open>bad\<close> raise, and the others are recorded.\<close>

definition failing_call :: "session_obj list \<Rightarrow> session_obj \<Rightarrow> real \<Rightarrow>
    (session_obj \<times> real) list \<Rightarrow> (session_obj \<times> real) list \<times> error option" where
  "failing_call bad app volume calls =
     (if app \<in> set bad then (calls, Some VolumeSetError) else (calls @ [(app, volume)], None))"

subsection \<open>What a bound object controls\<close>

text \<open>The audio sessions held by an object of \<open>session_dict\<close>.\<close>

fun claimed_sessions :: "session_obj \<Rightarrow> audio_session list" where
  "claimed_sessions (Master idx) = []"
| "claimed_sessions (System idx session) = [session]"
| "claimed_sessions (Session idx session) = [session]"
| "claimed_sessions (SessionGroup idx members) = members"

text \<open>Loop invariant of lines 116 to 152: what \<open>session_dict\<close> holds is in \<open>mapped_sessions\<close>.\<close>

definition all_claimed :: "(nat \<times> session_obj) list \<times> audio_session list \<Rightarrow> bool" where
  "all_claimed st =
     (\<forall>p \<in> set (fst st). set (claimed_sessions (snd p)) \<subseteq> set (snd st))"

subsection \<open>Concrete configurations and snapshots\<close>

definition chrome :: audio_session where
  "chrome = \<lparr>handle = 0, Process_name = Some ''chrome.exe'', DisplayName = []\<rparr>"

definition firefox :: audio_session where
  "firefox = \<lparr>handle = 1, Process_name = Some ''firefox.exe'', DisplayName = []\<rparr>"

text \<open>The system sounds session as pycaw reports it: no process, a resource path as display name.\<close>

definition system_sounds :: audio_session where
  "system_sounds = \<lparr>handle = 2, Process_name = None,
     DisplayName = ''@%SystemRoot%'' @ [CHR 0x5C] @ ''System32'' @ [CHR 0x5C] @ ''AudioSrv.Dll,-202''\<rparr>"

text \<open>The same session, had it a process of its own.\<close>

definition system_process :: audio_session where
  "system_process = \<lparr>handle = 2, Process_name = Some ''System'',
     DisplayName = ''@%SystemRoot%'' @ [CHR 0x5C] @ ''System32'' @ [CHR 0x5C] @ ''AudioSrv.Dll,-202''\<rparr>"

text \<open>A \<open>Control\<close> object with \<open>k\<close> sliders on which \<open>get_mapping\<close> has not run yet.\<close>

definition fresh_control :: "int \<Rightarrow> control" where
  "fresh_control k = \<lparr>lines = [], sliders = k, inverted = False, target_idxs = [],
     found_pycaw_sessions = [], sessions = []\<rparr>"

definition scenario_config :: string where
  "scenario_config =
     ''0: master\<newline>1: system\<newline>2: chrome.exe\<newline>3: unmapped\<newline>sliders: 4\<newline>system in unmapped:True''"

definition scenario_resolved :: control where
  "scenario_resolved = \<lparr>
     lines = [''0: master'', ''1: system'', ''2: chrome.exe'', ''3: unmapped'', ''sliders: 4'',
              ''system in unmapped:True''],
     sliders = 4, inverted = False,
     target_idxs = [(Str ''master'', 0), (Str ''system'', 1), (Str ''chrome.exe'', 2),
                    (Str ''unmapped'', 3)],
     found_pycaw_sessions = [chrome, firefox, system_sounds],
     sessions = [(0, Master 0), (1, System 1 system_sounds), (2, Session 2 chrome),
                 (3, SessionGroup 3 [firefox])]\<rparr>"

text \<open>Index 0 declared twice, with two different targets.\<close>

definition duplicate_config :: string where
  "duplicate_config =
     ''0: chrome.exe\<newline>0: firefox.exe\<newline>sliders: 1\<newline>system in unmapped:True''"

text \<open>\<open>unmapped\<close> declared, without and with the key \<open>system in unmapped\<close>.\<close>

definition no_key_config :: string where
  "no_key_config = ''0: unmapped\<newline>sliders: 1''"

definition with_key_config :: string where
  "with_key_config = ''0: unmapped\<newline>sliders: 1\<newline>system in unmapped:True''"

text \<open>The key that the loop of lines 101 to 105 computes for one index.\<close>

definition declared :: "string list \<Rightarrow> nat \<Rightarrow> error + target" where
  "declared ls idx =
     (case get_setting ls (str idx) of
        Inl e \<Rightarrow> Inl e
      | Inr application_str \<Rightarrow> Inr (target_key application_str))"

text \<open>Indices 0 and 3 declare the same target.\<close>

definition same_target_config :: string where
  "same_target_config =
     ''0: chrome.exe\<newline>1: master\<newline>2: firefox.exe\<newline>3: chrome.exe\<newline>sliders: 4''"

definition same_target_resolved :: control where
  "same_target_resolved = \<lparr>
     lines = [''0: chrome.exe'', ''1: master'', ''2: firefox.exe'', ''3: chrome.exe'', ''sliders: 4''],
     sliders = 4, inverted = False,
     target_idxs = [(Str ''chrome.exe'', 3), (Str ''master'', 1), (Str ''firefox.exe'', 2)],
     found_pycaw_sessions = [chrome, firefox, system_sounds],
     sessions = [(3, Session 3 chrome), (1, Master 1), (2, Session 2 firefox)]\<rparr>"

text \<open>Indices 0 and 3 declare the same group, indices 1 and 2 both declare the master volume.\<close>

definition same_group_config :: string where
  "same_group_config =
     ''0: chrome.exe, firefox.exe\<newline>1: master\<newline>2: master\<newline>3: chrome.exe, firefox.exe\<newline>sliders: 4''"

definition same_group_resolved :: control where
  "same_group_resolved = \<lparr>
     lines = [''0: chrome.exe, firefox.exe'', ''1: master'', ''2: master'',
              ''3: chrome.exe, firefox.exe'', ''sliders: 4''],
     sliders = 4, inverted = False,
     target_idxs = [(Tuple [''chrome.exe'', ''firefox.exe''], 3), (Str ''master'', 2)],
     found_pycaw_sessions = [chrome, firefox, system_sounds],
     sessions = [(3, SessionGroup 3 [chrome, firefox]), (2, Master 2)]\<rparr>"

text \<open>The four mapping lines of the scenario alone, and with the number of sliders.\<close>

definition listed_config :: string where
  "listed_config = ''0: master\<newline>1: system\<newline>2: chrome.exe\<newline>3: unmapped''"

definition listed_sliders_config :: string where
  "listed_sliders_config =
     ''0: master\<newline>1: system\<newline>2: chrome.exe\<newline>3: unmapped\<newline>sliders: 4''"

text \<open>The scenario with the system sounds kept out of \<open>unmapped\<close>.\<close>

definition scenario_config_false :: string where
  "scenario_config_false =
     ''0: master\<newline>1: system\<newline>2: chrome.exe\<newline>3: unmapped\<newline>sliders: 4\<newline>system in unmapped:False''"

section \<open>Properties\<close>

subsection \<open>Dictionaries\<close>

lemma dict_set_subset: "set (dict_set d k v) \<subseteq> insert (k, v) (set d)"
  by (induction d k v rule: dict_set.induct) auto

lemma dict_set_keys: "fst ` set (dict_set d k v) = insert k (fst ` set d)"
  by (induction d k v rule: dict_set.induct) auto

lemma map_of_dict_set: "map_of (dict_set d k v) = (map_of d)(k \<mapsto> v)"
  by (induction d k v rule: dict_set.induct) (auto simp: fun_eq_iff)

subsection \<open>The keys of the resolved mapping\<close>

lemma collect_targets_values:
  "collect_targets ls idxs tis = Inr tis' \<Longrightarrow> snd ` set tis' \<subseteq> snd ` set tis \<union> set idxs"
proof (induction idxs arbitrary: tis)
  case Nil
  then show ?case by simp
next
  case (Cons idx idxs)
  from Cons.prems obtain a where a: "get_setting ls (str idx) = Inr a"
    and r: "collect_targets ls idxs (dict_set tis (target_key a) idx) = Inr tis'"
    by (auto split: sum.splits)
  have "snd ` set (dict_set tis (target_key a) idx) \<subseteq> insert idx (snd ` set tis)"
    using dict_set_subset [of tis "target_key a" idx] by auto
  with Cons.IH [OF r] show ?case by auto
qed

lemma resolve_target_keys:
  "fst ` set (fst (resolve_target active sys (t, idx) st)) \<subseteq> insert idx (fst ` set (fst st))"
  by (cases st; cases t) (auto simp: dict_set_keys split: option.splits prod.splits)

lemma resolve_targets_keys_aux:
  "fst ` set (fst (foldl (\<lambda>st ti. resolve_target active sys ti st) st tis))
     \<subseteq> fst ` set (fst st) \<union> snd ` set tis"
proof (induction tis arbitrary: st)
  case Nil
  then show ?case by simp
next
  case (Cons ti tis)
  obtain t idx where ti: "ti = (t, idx)" by (cases ti)
  show ?case
    using Cons.IH [of "resolve_target active sys ti st"] resolve_target_keys [of active sys t idx st]
    by (auto simp: ti)
qed

lemma resolve_targets_keys:
  "fst ` set (fst (resolve_targets active sys tis)) \<subseteq> snd ` set tis"
  using resolve_targets_keys_aux [of active sys "([], [])" tis]
  by (simp add: resolve_targets_def)

lemma resolve_unmapped_None:
  "map_of tis (Str ''unmapped'') = None \<Longrightarrow>
   resolve_unmapped ls tis active sys (session_dict, mapped) = Inr session_dict"
  by (simp add: resolve_unmapped_def)

lemma resolve_unmapped_Some:
  assumes "resolve_unmapped ls tis active sys (session_dict, mapped) = Inr sd"
    and "map_of tis (Str ''unmapped'') = Some u"
  obtains v where "get_setting ls ''system in unmapped'' = Inr v"
    and "sd = dict_set session_dict u (SessionGroup u
           (if lower v = ''false'' \<and> sys \<in> set (filter (\<lambda>ses. ses \<notin> set mapped) (map snd active))
            then remove1 sys (filter (\<lambda>ses. ses \<notin> set mapped) (map snd active))
            else filter (\<lambda>ses. ses \<notin> set mapped) (map snd active)))"
  using assms
  by (cases "get_setting ls ''system in unmapped''") (simp_all add: resolve_unmapped_def Let_def)

lemma resolve_unmapped_keys:
  assumes "resolve_unmapped ls tis active sys st = Inr sd"
  shows "fst ` set sd \<subseteq> fst ` set (fst st) \<union> snd ` set tis"
proof (cases "map_of tis (Str ''unmapped'')")
  case None
  with assms show ?thesis by (cases st) (simp add: resolve_unmapped_None)
next
  case (Some u)
  then have u: "u \<in> snd ` set tis" by (force dest: map_of_SomeD)
  obtain session_dict mapped where st: "st = (session_dict, mapped)" by (cases st)
  from assms [unfolded st] Some obtain members
    where "sd = dict_set session_dict u (SessionGroup u members)"
    by (rule resolve_unmapped_Some)
  then have "fst ` set sd = insert u (fst ` set session_dict)"
    by (simp only: dict_set_keys)
  with u st show ?thesis by auto
qed

text \<open>A run of \<open>get_mapping\<close> that returns went through each of its stages.\<close>

lemma get_mapping_Inr:
  assumes "get_mapping text found c = Inr c'"
  obtains tis sys sd where
    "collect_targets (split_str CHR 0x0A text) [0..<nat (sliders c)] [] = Inr tis"
    "system_session_of found = Inr sys"
    "resolve_unmapped (split_str CHR 0x0A text) tis (active_sessions_of found) sys
       (resolve_targets (active_sessions_of found) sys tis) = Inr sd"
    "c' = c\<lparr>lines := split_str CHR 0x0A text, target_idxs := tis,
             found_pycaw_sessions := found, sessions := sd\<rparr>"
  using assms
  by (auto simp: get_mapping_def load_config_def Let_def split: sum.splits)

text \<open>Of the object it starts from, \<open>get_mapping\<close> reads the number of sliders only.\<close>

lemma get_mapping_reads_sliders:
  assumes "get_mapping text found c = Inr c'" and "sliders d = sliders c"
  shows "get_mapping text found d =
         Inr (d\<lparr>lines := lines c', target_idxs := target_idxs c',
                found_pycaw_sessions := found_pycaw_sessions c', sessions := sessions c'\<rparr>)"
proof -
  from assms(1) obtain tis sys sd where
    tis: "collect_targets (split_str CHR 0x0A text) [0..<nat (sliders c)] [] = Inr tis"
    and sys: "system_session_of found = Inr sys"
    and sd: "resolve_unmapped (split_str CHR 0x0A text) tis (active_sessions_of found) sys
       (resolve_targets (active_sessions_of found) sys tis) = Inr sd"
    and c': "c' = c\<lparr>lines := split_str CHR 0x0A text, target_idxs := tis,
             found_pycaw_sessions := found, sessions := sd\<rparr>"
    by (rule get_mapping_Inr)
  show ?thesis
    by (simp add: get_mapping_def load_config_def c' tis sys sd assms(2))
qed

text \<open>The scenario, evaluated.\<close>

lemma scenario_get_mapping:
  "get_mapping scenario_config [chrome, firefox, system_sounds] (fresh_control 4)
     = Inr scenario_resolved"
  by code_simp

lemma scenario_get_mapping_process:
  "get_mapping scenario_config [chrome, firefox, system_process] (fresh_control 4)
     = Inr (scenario_resolved\<lparr>found_pycaw_sessions := [chrome, firefox, system_process],
              sessions := [(0, Master 0), (1, System 1 system_process), (2, Session 2 chrome),
                           (3, SessionGroup 3 [firefox])]\<rparr>)"
  by code_simp

text \<open>
  C3. Every key of the mapping that \<open>get_mapping\<close> produces is an index \<open>i\<close> with
  \<open>0 \<le> i < sliders\<close>, for every configuration text and every snapshot of sessions.
\<close>

theorem get_mapping_keys_in_range:
  assumes "get_mapping text found c = Inr c'" and "(i, app) \<in> set (sessions c')"
  shows "0 \<le> int i \<and> int i < sliders c' \<and> sliders c' = sliders c"
proof -
  from assms(1) obtain tis sys sd where
    tis: "collect_targets (split_str CHR 0x0A text) [0..<nat (sliders c)] [] = Inr tis"
    and sd: "resolve_unmapped (split_str CHR 0x0A text) tis (active_sessions_of found) sys
       (resolve_targets (active_sessions_of found) sys tis) = Inr sd"
    and c': "c' = c\<lparr>lines := split_str CHR 0x0A text, target_idxs := tis,
             found_pycaw_sessions := found, sessions := sd\<rparr>"
    by (rule get_mapping_Inr)
  from assms(2) c' have "i \<in> fst ` set sd" by force
  with resolve_unmapped_keys [OF sd] resolve_targets_keys [of "active_sessions_of found" sys tis]
  have "i \<in> snd ` set tis" by auto
  with collect_targets_values [OF tis] have "i < nat (sliders c)" by auto
  with c' show ?thesis by simp
qed

theorem get_mapping_keys_in_range_witness:
  "get_mapping scenario_config [chrome, firefox, system_sounds] (fresh_control 4)
     = Inr scenario_resolved
   \<and> (3, SessionGroup 3 [firefox]) \<in> set (sessions scenario_resolved)
   \<and> 0 \<le> int 3 \<and> int 3 < sliders scenario_resolved
   \<and> sliders scenario_resolved = sliders (fresh_control 4)"
proof -
  have member: "(3, SessionGroup 3 [firefox]) \<in> set (sessions scenario_resolved)"
    by (simp add: scenario_resolved_def)
  show ?thesis
    using get_mapping_keys_in_range [OF scenario_get_mapping member] scenario_get_mapping member
    by simp
qed

text \<open>
  C6. Resolving again against the same configuration text and the same snapshot, from the
  object the first pass left, gives that object again: the same keys, objects and members.
\<close>

theorem get_mapping_idempotent:
  assumes "get_mapping text found c = Inr c'"
  shows "get_mapping text found c' = Inr c'"
proof -
  from assms obtain tis sys sd where
    c': "c' = c\<lparr>lines := split_str CHR 0x0A text, target_idxs := tis,
             found_pycaw_sessions := found, sessions := sd\<rparr>"
    by (rule get_mapping_Inr)
  have "sliders c' = sliders c" by (simp add: c')
  from get_mapping_reads_sliders [OF assms this] show ?thesis by simp
qed

theorem get_mapping_idempotent_witness:
  "get_mapping scenario_config [chrome, firefox, system_sounds] (fresh_control 4)
     = Inr scenario_resolved
   \<and> get_mapping scenario_config [chrome, firefox, system_sounds] scenario_resolved
     = Inr scenario_resolved"
  using get_mapping_idempotent [OF scenario_get_mapping] scenario_get_mapping
  by simp

subsection \<open>Claimed sessions and the unmapped group\<close>

lemma resolve_group_sets:
  "resolve_group active names (g, m) = (g', m') \<Longrightarrow>
   set m \<subseteq> set m' \<and> set g' \<subseteq> set g \<union> set m'"
proof (induction names arbitrary: g m)
  case Nil
  then show ?case by auto
next
  case (Cons n names)
  show ?case
  proof (cases "lower n \<in> set [''master'', ''system'', ''unmapped'']")
    case True
    with Cons.prems have "resolve_group active names (g, m) = (g', m')" by simp
    from Cons.IH [OF this] show ?thesis .
  next
    case False
    show ?thesis
    proof (cases "map_of active (lower n)")
      case None
      with False Cons.prems have "resolve_group active names (g, m) = (g', m')" by simp
      from Cons.IH [OF this] show ?thesis .
    next
      case (Some s)
      with False Cons.prems have "resolve_group active names (g @ [s], m @ [s]) = (g', m')"
        by simp
      from Cons.IH [OF this] show ?thesis by auto
    qed
  qed
qed

lemma all_claimed_dict_set:
  assumes "all_claimed (sd, m)" and "set (claimed_sessions app) \<subseteq> set m'"
    and "set m \<subseteq> set m'"
  shows "all_claimed (dict_set sd idx app, m')"
proof -
  have "set (claimed_sessions (snd p)) \<subseteq> set m'" if "p \<in> set (dict_set sd idx app)" for p
  proof -
    from that dict_set_subset [of sd idx app] have "p = (idx, app) \<or> p \<in> set sd" by auto
    then show ?thesis
    proof
      assume "p = (idx, app)"
      with assms(2) show ?thesis by simp
    next
      assume "p \<in> set sd"
      with assms(1) have "set (claimed_sessions (snd p)) \<subseteq> set m"
        by (simp add: all_claimed_def)
      with assms(3) show ?thesis by blast
    qed
  qed
  then show ?thesis by (simp add: all_claimed_def)
qed

lemma all_claimed_mono:
  assumes "all_claimed (sd, m)" and "set m \<subseteq> set m'"
  shows "all_claimed (sd, m')"
  unfolding all_claimed_def
proof
  fix p
  assume "p \<in> set (fst (sd, m'))"
  with assms(1) have "set (claimed_sessions (snd p)) \<subseteq> set m"
    by (simp add: all_claimed_def)
  with assms(2) show "set (claimed_sessions (snd p)) \<subseteq> set (snd (sd, m'))" by auto
qed

lemma resolve_target_claimed:
  assumes "all_claimed st"
  shows "all_claimed (resolve_target active sys ti st)"
proof -
  obtain sd m where st: "st = (sd, m)" by (cases st)
  obtain t idx where ti: "ti = (t, idx)" by (cases ti)
  from assms st have inv: "all_claimed (sd, m)" by simp
  show ?thesis
  proof (cases t)
    case (Str name)
    have master: "all_claimed (dict_set sd idx (Master idx), m)"
      by (rule all_claimed_dict_set [OF inv]) auto
    have system: "all_claimed (dict_set sd idx (System idx sys), m @ [sys])"
      by (rule all_claimed_dict_set [OF inv]) auto
    have session: "all_claimed (dict_set sd idx (Session idx s), m @ [s])" for s
      by (rule all_claimed_dict_set [OF inv]) auto
    show ?thesis
      unfolding st ti Str
      by (simp add: master system session inv split: option.splits)
  next
    case (Tuple names)
    obtain g' m' where r: "resolve_group active names ([], m) = (g', m')"
      by (cases "resolve_group active names ([], m)")
    from resolve_group_sets [OF r] have sub: "set m \<subseteq> set m'" "set g' \<subseteq> set m'" by auto
    have keep: "all_claimed (sd, m')"
      by (rule all_claimed_mono [OF inv sub(1)])
    have group: "all_claimed (dict_set sd idx (SessionGroup idx g'), m')"
      by (rule all_claimed_dict_set [OF inv]) (use sub in auto)
    show ?thesis
      unfolding st ti Tuple
      by (simp add: r keep group)
  qed
qed

lemma resolve_targets_claimed_aux:
  "all_claimed st \<Longrightarrow> all_claimed (foldl (\<lambda>st ti. resolve_target active sys ti st) st tis)"
  by (induction tis arbitrary: st) (simp_all add: resolve_target_claimed)

lemma resolve_targets_claimed: "all_claimed (resolve_targets active sys tis)"
  unfolding resolve_targets_def
  by (rule resolve_targets_claimed_aux) (simp add: all_claimed_def)

text \<open>
  C1. When \<open>unmapped\<close> is declared, its index is bound to a group, and no session held by
  the object of any other index (a \<open>System\<close>, a \<open>Session\<close> or a member of a \<open>SessionGroup\<close>)
  is a member of that group; nor is any session of \<open>mapped_sessions\<close>.
\<close>

theorem unmapped_excludes_claimed:
  assumes "get_mapping text found c = Inr c'"
    and "map_of (target_idxs c') (Str ''unmapped'') = Some u"
  shows "\<exists>members. map_of (sessions c') u = Some (SessionGroup u members) \<and>
           (\<forall>i app. i \<noteq> u \<and> map_of (sessions c') i = Some app \<longrightarrow>
              set (claimed_sessions app) \<inter> set members = {}) \<and>
           (\<forall>sys. system_session_of found = Inr sys \<longrightarrow>
              set (snd (resolve_targets (active_sessions_of found) sys (target_idxs c')))
                \<inter> set members = {})"
proof -
  from assms(1) obtain tis sys sd where
    sys: "system_session_of found = Inr sys"
    and sd: "resolve_unmapped (split_str CHR 0x0A text) tis (active_sessions_of found) sys
       (resolve_targets (active_sessions_of found) sys tis) = Inr sd"
    and c': "c' = c\<lparr>lines := split_str CHR 0x0A text, target_idxs := tis,
             found_pycaw_sessions := found, sessions := sd\<rparr>"
    by (rule get_mapping_Inr)
  obtain sd0 mapped where r: "resolve_targets (active_sessions_of found) sys tis = (sd0, mapped)"
    by (cases "resolve_targets (active_sessions_of found) sys tis")
  from assms(2) c' have u: "map_of tis (Str ''unmapped'') = Some u" by simp
  define cand where "cand = filter (\<lambda>ses. ses \<notin> set mapped) (map snd (active_sessions_of found))"
  from sd [unfolded r] u obtain members where
    sd_eq: "sd = dict_set sd0 u (SessionGroup u members)"
    and members: "members = cand \<or> members = remove1 sys cand"
    unfolding cand_def by (rule resolve_unmapped_Some) (simp split: if_splits)
  have disj: "set mapped \<inter> set members = {}"
    using members set_remove1_subset [of sys cand] by (auto simp: cand_def)
  have claimed: "all_claimed (sd0, mapped)"
    using resolve_targets_claimed [of "active_sessions_of found" sys tis] by (simp add: r)
  have bound: "map_of sd u = Some (SessionGroup u members)"
    by (simp add: sd_eq map_of_dict_set)
  have others: "set (claimed_sessions app) \<inter> set members = {}"
    if "i \<noteq> u" and "map_of sd i = Some app" for i app
  proof -
    from that have "map_of sd0 i = Some app" by (simp add: sd_eq map_of_dict_set)
    then have "(i, app) \<in> set sd0" by (rule map_of_SomeD)
    with claimed have "set (claimed_sessions app) \<subseteq> set mapped"
      by (force simp: all_claimed_def)
    with disj show ?thesis by auto
  qed
  have "map_of (sessions c') u = Some (SessionGroup u members)"
    using bound by (simp add: c')
  moreover have "\<forall>i app. i \<noteq> u \<and> map_of (sessions c') i = Some app \<longrightarrow>
      set (claimed_sessions app) \<inter> set members = {}"
  proof (intro allI impI)
    fix i app
    assume "i \<noteq> u \<and> map_of (sessions c') i = Some app"
    then show "set (claimed_sessions app) \<inter> set members = {}"
      using others [of i app] by (simp add: c')
  qed
  moreover have "\<forall>sys'. system_session_of found = Inr sys' \<longrightarrow>
      set (snd (resolve_targets (active_sessions_of found) sys' (target_idxs c'))) \<inter> set members = {}"
    using disj by (simp add: c' sys r)
  ultimately show ?thesis by blast
qed

theorem unmapped_excludes_claimed_witness:
  "get_mapping scenario_config [chrome, firefox, system_process] (fresh_control 4)
     = Inr (scenario_resolved\<lparr>found_pycaw_sessions := [chrome, firefox, system_process],
              sessions := [(0, Master 0), (1, System 1 system_process), (2, Session 2 chrome),
                           (3, SessionGroup 3 [firefox])]\<rparr>)
   \<and> map_of (target_idxs scenario_resolved) (Str ''unmapped'') = Some 3
   \<and> set (claimed_sessions (System 1 system_process)) \<inter> set [firefox] = {}
   \<and> set (claimed_sessions (Session 2 chrome)) \<inter> set [firefox] = {}
   \<and> system_session_of [chrome, firefox, system_process] = Inr system_process
   \<and> set (snd (resolve_targets (active_sessions_of [chrome, firefox, system_process])
         system_process (target_idxs scenario_resolved))) \<inter> set [firefox] = {}"
proof -
  let ?r = "scenario_resolved\<lparr>found_pycaw_sessions := [chrome, firefox, system_process],
              sessions := [(0, Master 0), (1, System 1 system_process), (2, Session 2 chrome),
                           (3, SessionGroup 3 [firefox])]\<rparr>"
  have u: "map_of (target_idxs ?r) (Str ''unmapped'') = Some 3"
    by (simp add: scenario_resolved_def)
  have sys: "system_session_of [chrome, firefox, system_process] = Inr system_process"
    by code_simp
  from unmapped_excludes_claimed [OF scenario_get_mapping_process u]
  obtain members where m: "map_of (sessions ?r) 3 = Some (SessionGroup 3 members)"
    and others: "\<And>i app. i \<noteq> 3 \<and> map_of (sessions ?r) i = Some app \<Longrightarrow>
                   set (claimed_sessions app) \<inter> set members = {}"
    and mapped: "\<And>s. system_session_of [chrome, firefox, system_process] = Inr s \<Longrightarrow>
       set (snd (resolve_targets (active_sessions_of [chrome, firefox, system_process]) s
          (target_idxs ?r))) \<inter> set members = {}"
    by blast
  from m have members: "members = [firefox]" by simp
  have "set (claimed_sessions (System 1 system_process)) \<inter> set [firefox] = {}"
    using others [of 1 "System 1 system_process"] by (simp add: members)
  moreover have "set (claimed_sessions (Session 2 chrome)) \<inter> set [firefox] = {}"
    using others [of 2 "Session 2 chrome"] by (simp add: members)
  moreover have "set (snd (resolve_targets (active_sessions_of [chrome, firefox, system_process])
         system_process (target_idxs scenario_resolved))) \<inter> set [firefox] = {}"
    using mapped [OF sys] by (simp add: members)
  ultimately show ?thesis
    using scenario_get_mapping_process u sys by simp
qed

lemma scenario_false_get_mapping:
  "get_mapping scenario_config_false [chrome, firefox, system_sounds] (fresh_control 4)
     = Inr (scenario_resolved\<lparr>lines := [''0: master'', ''1: system'', ''2: chrome.exe'',
              ''3: unmapped'', ''sliders: 4'', ''system in unmapped:False'']\<rparr>)"
  by code_simp

lemma scenario_false_get_mapping_process:
  "get_mapping scenario_config_false [chrome, firefox, system_process] (fresh_control 4)
     = Inr (scenario_resolved\<lparr>lines := [''0: master'', ''1: system'', ''2: chrome.exe'',
              ''3: unmapped'', ''sliders: 4'', ''system in unmapped:False''],
              found_pycaw_sessions := [chrome, firefox, system_process],
              sessions := [(0, Master 0), (1, System 1 system_process), (2, Session 2 chrome),
                           (3, SessionGroup 3 [firefox])]\<rparr>)"
  by code_simp

text \<open>
  C2, as the code has it. The configuration \<open>0: master, 1: system, 2: chrome.exe, 3: unmapped\<close>
  with four sliders and a line for the key \<open>system in unmapped\<close>, be it \<open>True\<close> or \<open>False\<close>,
  against the live sessions of chrome.exe, firefox.exe and the system sounds, resolves to
  \<open>{0: Master, 1: System, 2: Session(chrome.exe), 3: SessionGroup([firefox.exe])}\<close>, whether the
  system sounds session has a process of its own or not, and whatever the object held before.
\<close>

theorem scenario_resolution:
  "(\<exists>c'. get_mapping scenario_config [chrome, firefox, system_sounds] (c\<lparr>sliders := 4\<rparr>) = Inr c'
      \<and> sessions c' = [(0, Master 0), (1, System 1 system_sounds), (2, Session 2 chrome),
                        (3, SessionGroup 3 [firefox])])
   \<and> (\<exists>c'. get_mapping scenario_config [chrome, firefox, system_process] (c\<lparr>sliders := 4\<rparr>) = Inr c'
      \<and> sessions c' = [(0, Master 0), (1, System 1 system_process), (2, Session 2 chrome),
                        (3, SessionGroup 3 [firefox])])
   \<and> (\<exists>c'. get_mapping scenario_config_false [chrome, firefox, system_sounds] (c\<lparr>sliders := 4\<rparr>)
             = Inr c'
      \<and> sessions c' = [(0, Master 0), (1, System 1 system_sounds), (2, Session 2 chrome),
                        (3, SessionGroup 3 [firefox])])
   \<and> (\<exists>c'. get_mapping scenario_config_false [chrome, firefox, system_process] (c\<lparr>sliders := 4\<rparr>)
             = Inr c'
      \<and> sessions c' = [(0, Master 0), (1, System 1 system_process), (2, Session 2 chrome),
                        (3, SessionGroup 3 [firefox])])"
proof -
  have s: "sliders (c\<lparr>sliders := 4\<rparr>) = sliders (fresh_control 4)"
    by (simp add: fresh_control_def)
  show ?thesis
    using get_mapping_reads_sliders [OF scenario_get_mapping s]
      get_mapping_reads_sliders [OF scenario_get_mapping_process s]
      get_mapping_reads_sliders [OF scenario_false_get_mapping s]
      get_mapping_reads_sliders [OF scenario_false_get_mapping_process s]
    by (simp add: scenario_resolved_def)
qed

text \<open>
  C2, as the claim states it, fails: on the four mapping lines alone, and on them with the
  number of sliders, \<open>unmapped\<close> is declared and no line has the key \<open>system in unmapped\<close>, so
  resolution raises \<open>IndexError\<close> and produces no mapping.
\<close>

theorem scenario_as_listed_raises:
  "get_mapping listed_config [chrome, firefox, system_sounds] (fresh_control 4) = Inl IndexError
   \<and> get_mapping listed_config [chrome, firefox, system_process] (fresh_control 4) = Inl IndexError
   \<and> get_mapping listed_sliders_config [chrome, firefox, system_sounds] (fresh_control 4)
       = Inl IndexError
   \<and> get_mapping listed_sliders_config [chrome, firefox, system_process] (fresh_control 4)
       = Inl IndexError"
  by code_simp

subsection \<open>The volume dispatcher\<close>

lemma py_index_nth: "i < length xs \<Longrightarrow> py_index xs i = Inr (xs ! i)"
  by (induction xs i rule: py_index.induct) simp_all

lemma py_index_out_of_range: "length xs \<le> i \<Longrightarrow> py_index xs i = Inl IndexError"
  by (induction xs i rule: py_index.induct) simp_all

lemma set_volume_items_append:
  "set_volume_items f b values (xs @ ys) os =
     (case set_volume_items f b values xs os of
        (os', None) \<Rightarrow> set_volume_items f b values ys os'
      | (os', Some e) \<Rightarrow> (os', Some e))"
proof (induction xs arbitrary: os)
  case Nil
  then show ?case by simp
next
  case (Cons x xs)
  obtain index app where x: "x = (index, app)" by (cases x)
  show ?case
    unfolding x
    by (simp add: Cons.IH split: sum.splits prod.splits option.splits)
qed

lemma set_volume_items_record_call:
  assumes "\<forall>p \<in> set items. fst p < length values"
  shows "set_volume_items record_call b values items calls =
         (calls @ map (\<lambda>p. (snd p, volume_of b (values ! fst p))) items, None)"
  using assms
proof (induction items arbitrary: calls)
  case Nil
  then show ?case by simp
next
  case (Cons x items)
  obtain index app where x: "x = (index, app)" by (cases x)
  from Cons.prems x have "index < length values" by simp
  then have idx: "py_index values index = Inr (values ! index)" by (rule py_index_nth)
  from Cons.prems have rest: "\<forall>p \<in> set items. fst p < length values" by simp
  have call: "record_call app (volume_of b (values ! index)) calls
      = (calls @ [(app, volume_of b (values ! index))], None)"
    by (simp add: record_call_def)
  show ?case
    unfolding x
    by (simp add: idx call Cons.IH [OF rest])
qed

text \<open>
  C5. For every bound index the volume passed to the object is \<open>values[index] / 1023\<close>, and
  \<open>1 - values[index] / 1023\<close> when the sliders are inverted, in the order of the mapping; the
  raw value 1023 gives 1 and 0 gives 0, the other way round when inverted; and the batch
  \<open>[512, 1023, 0]\<close>, inverted, over three bound objects passes \<open>1 - 512/1023\<close>, 0 and 1.
  Division is that of the reals.
\<close>

theorem set_volume_normalises:
  assumes "\<forall>p \<in> set (sessions c). fst p < length values"
  shows "set_volume record_call c values calls =
           (calls @ map (\<lambda>p. (snd p, if inverted c then 1 - real_of_int (values ! fst p) / 1023
                                      else real_of_int (values ! fst p) / 1023)) (sessions c), None)
         \<and> volume_of False 1023 = 1 \<and> volume_of False 0 = 0
         \<and> volume_of True 1023 = 0 \<and> volume_of True 0 = 1
         \<and> set_volume record_call
              (d\<lparr>inverted := True, sessions := [(0, a0), (1, a1), (2, a2)]\<rparr>) [512, 1023, 0] []
             = ([(a0, 1 - 512 / 1023), (a1, 0), (a2, 1)], None)"
proof -
  have general: "set_volume record_call c values calls =
           (calls @ map (\<lambda>p. (snd p, if inverted c then 1 - real_of_int (values ! fst p) / 1023
                                      else real_of_int (values ! fst p) / 1023)) (sessions c), None)"
    unfolding set_volume_def set_volume_items_record_call [OF assms]
    by (simp add: volume_of_def Let_def)
  have "\<forall>p \<in> set [(0, a0), (1, a1), (2, a2)]. fst p < length [512, 1023, 0 :: int]"
    by simp
  from set_volume_items_record_call [OF this, of True "[]"]
  have batch: "set_volume record_call
              (d\<lparr>inverted := True, sessions := [(0, a0), (1, a1), (2, a2)]\<rparr>) [512, 1023, 0] []
             = ([(a0, 1 - 512 / 1023), (a1, 0), (a2, 1)], None)"
    by (simp add: set_volume_def volume_of_def Let_def)
  show ?thesis
    using general batch by (simp add: volume_of_def Let_def)
qed

theorem set_volume_normalises_witness:
  "map fst (sessions scenario_resolved) = [0, 1, 2, 3] \<and> length [1023, 0, 512, 341 :: int] = 4
   \<and> set_volume record_call scenario_resolved [1023, 0, 512, 341] []
     = ([(Master 0, 1), (System 1 system_sounds, 0), (Session 2 chrome, 512 / 1023),
         (SessionGroup 3 [firefox], 1 / 3)], None)"
proof -
  have bound: "\<forall>p \<in> set (sessions scenario_resolved). fst p < length [1023, 0, 512, 341 :: int]"
    by (simp add: scenario_resolved_def)
  show ?thesis
    using set_volume_normalises [OF bound, of "[]"] bound
    by (simp add: scenario_resolved_def)
qed

text \<open>
  C4, as the code has it. \<open>set_volume\<close> has no handler: when the call on one bound object
  raises, the exception leaves \<open>set_volume\<close> with the audio system as that call left it. The
  objects before it in the mapping have been set; those after it receive no call, whatever
  they are.
\<close>

theorem set_volume_stops_at_error:
  assumes "sessions c = before @ (index, app) # after"
    and "set_volume_items app_set_volume (inverted c) values before os = (os1, None)"
    and "py_index values index = Inr v"
    and "app_set_volume app (volume_of (inverted c) v) os1 = (os2, Some e)"
  shows "set_volume app_set_volume c values os = (os2, Some e)"
  by (simp add: set_volume_def assms set_volume_items_append)

theorem set_volume_stops_at_error_witness:
  "sessions (scenario_resolved\<lparr>sessions := [(0, Master 0), (2, Session 2 chrome), (1, Master 1)]\<rparr>)
     = [(0, Master 0)] @ (2, Session 2 chrome) # [(1, Master 1)]
   \<and> set_volume_items (failing_call [Session 2 chrome]) False [1023, 1023, 1023] [(0, Master 0)] []
       = ([(Master 0, 1)], None)
   \<and> py_index [1023, 1023, 1023 :: int] 2 = Inr 1023
   \<and> failing_call [Session 2 chrome] (Session 2 chrome) (volume_of False 1023) [(Master 0, 1)]
       = ([(Master 0, 1)], Some VolumeSetError)
   \<and> set_volume (failing_call [Session 2 chrome])
        (scenario_resolved\<lparr>sessions := [(0, Master 0), (2, Session 2 chrome), (1, Master 1)]\<rparr>)
        [1023, 1023, 1023] []
       = ([(Master 0, 1)], Some VolumeSetError)"
proof -
  let ?c = "scenario_resolved\<lparr>sessions := [(0, Master 0), (2, Session 2 chrome), (1, Master 1)]\<rparr>"
  have inv: "inverted scenario_resolved = False" by (simp add: scenario_resolved_def)
  have split: "sessions ?c = [(0, Master 0)] @ (2, Session 2 chrome) # [(1, Master 1)]"
    by simp
  have first: "set_volume_items (failing_call [Session 2 chrome]) (inverted ?c) [1023, 1023, 1023]
       [(0, Master 0)] [] = ([(Master 0, 1)], None)"
    by (simp add: inv failing_call_def volume_of_def)
  have idx: "py_index [1023, 1023, 1023 :: int] 2 = Inr 1023"
    by (simp add: py_index_nth)
  have fails: "failing_call [Session 2 chrome] (Session 2 chrome) (volume_of (inverted ?c) 1023)
       [(Master 0, 1)] = ([(Master 0, 1)], Some VolumeSetError)"
    by (simp add: failing_call_def)
  show ?thesis
    using set_volume_stops_at_error [OF split first idx fails] split first idx fails
    by (simp add: inv)
qed

text \<open>
  C4, as the claim states it, fails: the call on the object of index 0 raises, and the object
  of index 1, whose own call would succeed, is never called; the caller gets the exception.
\<close>

theorem set_volume_aborts_batch:
  "set_volume (failing_call [Session 0 chrome])
     (fresh_control 2\<lparr>sessions := [(0, Session 0 chrome), (1, Master 1)]\<rparr>) [512, 1023] []
     = ([], Some VolumeSetError)
   \<and> failing_call [Session 0 chrome] (Master 1) 1 [] = ([(Master 1, 1)], None)"
  by (simp add: set_volume_def failing_call_def fresh_control_def)

subsection \<open>Settings\<close>

text \<open>
  C9 at the failing input: the value \<open>TRUE\<close> does not enable inversion, while \<open>True\<close> and
  \<open>true\<close> do; every casing of \<open>false\<close> disables it.
\<close>

theorem init_inverted_upper_case:
  "init_inverted [''sliders: 5'', ''inverted: TRUE''] = Inr False
   \<and> init_inverted [''sliders: 5'', ''inverted: True''] = Inr True
   \<and> init_inverted [''sliders: 5'', ''inverted: true''] = Inr True
   \<and> init_inverted [''sliders: 5'', ''inverted: FALSE''] = Inr False"
  by code_simp

subsection \<open>Which line a setting is read from\<close>

lemma startswith_set: "startswith s sub \<Longrightarrow> set sub \<subseteq> set s"
  by (induction s sub rule: startswith.induct) auto

lemma str_contains_set: "str_contains sub s \<Longrightarrow> set sub \<subseteq> set s"
proof (induction s)
  case Nil
  then show ?case by simp
next
  case (Cons c s)
  from Cons.prems have "startswith (c # s) sub \<or> str_contains sub s" by simp
  then show ?case
  proof
    assume "startswith (c # s) sub"
    then show ?thesis by (rule startswith_set)
  next
    assume "str_contains sub s"
    from Cons.IH [OF this] show ?thesis by auto
  qed
qed

lemma split_str_not_Nil: "split_str sep s \<noteq> []"
  by (induction s) (auto split: list.splits)

lemma split_str_two: "sep \<in> set s \<Longrightarrow> 2 \<le> length (split_str sep s)"
proof (induction s)
  case Nil
  then show ?case by simp
next
  case (Cons c s)
  show ?case
  proof (cases "c = sep")
    case True
    with split_str_not_Nil [of sep s] show ?thesis
      by (cases "split_str sep s") simp_all
  next
    case False
    with Cons.prems have "sep \<in> set s" by simp
    from Cons.IH [OF this] False show ?thesis
      by (cases "split_str sep s") simp_all
  qed
qed

lemma get_setting_first_match:
  assumes "\<forall>l' \<in> set before. \<not> str_contains (text @ '':'') l'"
    and "str_contains (text @ '':'') l"
  shows "get_setting (before @ l # after) text = Inr (strip (split_str CHR '':'' l ! 1))"
proof -
  from assms(1) have "filter (str_contains (text @ '':'')) before = []" by simp
  with assms(2) have first:
    "filter (str_contains (text @ '':'')) (before @ l # after)
       = l # filter (str_contains (text @ '':'')) after"
    by simp
  from str_contains_set [OF assms(2)] have "CHR '':'' \<in> set l" by auto
  then have "1 < length (split_str CHR '':'' l)"
    using split_str_two [of "CHR '':''" l] by simp
  then have "py_index (split_str CHR '':'' l) 1 = Inr (split_str CHR '':'' l ! 1)"
    by (rule py_index_nth)
  with first show ?thesis by (simp add: get_setting_def)
qed

lemma get_setting_no_match:
  "\<forall>l \<in> set ls. \<not> str_contains (text @ '':'') l \<Longrightarrow> get_setting ls text = Inl IndexError"
  by (simp add: get_setting_def)

text \<open>
  C7, as the code has it. A setting is read from the first line that contains its key and
  a colon: when an index is declared on several lines, the first declaration is the one
  stored, whatever the later lines say, and the configuration is not rejected.
\<close>

theorem first_declaration_wins:
  assumes "\<forall>l' \<in> set before. \<not> str_contains (str idx @ '':'') l'"
    and "str_contains (str idx @ '':'') l"
  shows "get_setting (before @ l # after) (str idx) = Inr (strip (split_str CHR '':'' l ! 1))
       \<and> collect_targets (before @ l # after) [idx] tis
           = Inr (dict_set tis (target_key (strip (split_str CHR '':'' l ! 1))) idx)"
  using get_setting_first_match [OF assms] by simp

theorem first_declaration_wins_witness:
  "\<not> str_contains (str 0 @ '':'') ''sliders: 1''
   \<and> str_contains (str 0 @ '':'') ''0: chrome.exe''
   \<and> get_setting ([''sliders: 1''] @ ''0: chrome.exe'' # [''0: firefox.exe'']) (str 0)
       = Inr ''chrome.exe''
   \<and> collect_targets ([''sliders: 1''] @ ''0: chrome.exe'' # [''0: firefox.exe'']) [0] []
       = Inr [(Str ''chrome.exe'', 0)]"
proof -
  have n1: "\<not> str_contains (str 0 @ '':'') ''sliders: 1''"
    by code_simp
  have none: "\<forall>l' \<in> set [''sliders: 1'']. \<not> str_contains (str 0 @ '':'') l'"
    by code_simp
  have hit: "str_contains (str 0 @ '':'') ''0: chrome.exe''"
    by code_simp
  have val: "strip (split_str CHR '':'' ''0: chrome.exe'' ! 1) = ''chrome.exe''"
    by code_simp
  have key: "target_key ''chrome.exe'' = Str ''chrome.exe''"
    by code_simp
  note r = first_declaration_wins [OF none hit, of "[''0: firefox.exe'']" "[]",
      unfolded val key dict_set.simps]
  from n1 hit r show ?thesis by blast
qed

text \<open>
  C7, as the claim states it, fails: with \<open>0: chrome.exe\<close> followed by \<open>0: firefox.exe\<close> the
  configuration is accepted and index 0 is bound to chrome.exe, the first declaration.
\<close>

theorem duplicate_index_first_wins:
  "get_mapping duplicate_config [chrome, firefox, system_sounds] (fresh_control 1)
     = Inr \<lparr>lines = [''0: chrome.exe'', ''0: firefox.exe'', ''sliders: 1'',
                      ''system in unmapped:True''],
            sliders = 1, inverted = False,
            target_idxs = [(Str ''chrome.exe'', 0)],
            found_pycaw_sessions = [chrome, firefox, system_sounds],
            sessions = [(0, Session 0 chrome)]\<rparr>"
  by code_simp

subsection \<open>The key \<open>system in unmapped\<close>\<close>

lemma system_session_of_error: "system_session_of found = Inl e \<Longrightarrow> e = IndexError"
  by (simp add: system_session_of_def split: list.splits)

lemma no_key_get_mapping:
  "get_mapping no_key_config [chrome, system_process] (fresh_control 1) = Inl IndexError"
  by code_simp

lemma with_key_get_mapping:
  "get_mapping with_key_config [chrome, system_process] (fresh_control 1)
     = Inr \<lparr>lines = [''0: unmapped'', ''sliders: 1'', ''system in unmapped:True''],
            sliders = 1, inverted = False,
            target_idxs = [(Str ''unmapped'', 0)],
            found_pycaw_sessions = [chrome, system_process],
            sessions = [(0, SessionGroup 0 [chrome, system_process])]\<rparr>"
  by code_simp

text \<open>
  C8, as the code has it. For a configuration that declares \<open>unmapped\<close>: when no line contains
  \<open>system in unmapped:\<close>, resolution raises \<open>IndexError\<close>, there is no default; when the key is
  there with a value other than \<open>false\<close> in any casing, resolution goes on and the unmapped group
  is every session of \<open>active_sessions\<close> that is not in \<open>mapped_sessions\<close>, the system session
  among them if it is there and unclaimed.
\<close>

theorem system_in_unmapped_key:
  assumes "collect_targets (split_str CHR 0x0A text) [0..<nat (sliders c)] [] = Inr tis"
    and "map_of tis (Str ''unmapped'') = Some u"
  shows "((\<forall>l \<in> set (split_str CHR 0x0A text). \<not> str_contains ''system in unmapped:'' l)
            \<longrightarrow> get_mapping text found c = Inl IndexError)
       \<and> (\<forall>sys v. system_session_of found = Inr sys
              \<and> get_setting (split_str CHR 0x0A text) ''system in unmapped'' = Inr v
              \<and> lower v \<noteq> ''false''
            \<longrightarrow> (\<exists>c'. get_mapping text found c = Inr c'
                  \<and> map_of (sessions c') u = Some (SessionGroup u
                       (filter (\<lambda>ses. ses \<notin> set (snd (resolve_targets (active_sessions_of found)
                                                        sys tis)))
                          (map snd (active_sessions_of found))))))"
proof (intro conjI impI allI)
  assume "\<forall>l \<in> set (split_str CHR 0x0A text). \<not> str_contains ''system in unmapped:'' l"
  then have "\<forall>l \<in> set (split_str CHR 0x0A text). \<not> str_contains (''system in unmapped'' @ '':'') l"
    by simp
  then have missing: "get_setting (split_str CHR 0x0A text) ''system in unmapped'' = Inl IndexError"
    by (rule get_setting_no_match)
  show "get_mapping text found c = Inl IndexError"
  proof (cases "system_session_of found")
    case (Inl e)
    then have "e = IndexError" by (rule system_session_of_error)
    with Inl show ?thesis
      by (simp add: get_mapping_def load_config_def assms(1))
  next
    case (Inr sys)
    obtain sd0 mapped where
      r: "resolve_targets (active_sessions_of found) sys tis = (sd0, mapped)"
      by (cases "resolve_targets (active_sessions_of found) sys tis")
    have "resolve_unmapped (split_str CHR 0x0A text) tis (active_sessions_of found) sys
            (sd0, mapped) = Inl IndexError"
      by (simp add: resolve_unmapped_def assms(2) missing)
    with Inr r show ?thesis
      by (simp add: get_mapping_def load_config_def assms(1))
  qed
next
  fix sys v
  assume a: "system_session_of found = Inr sys
      \<and> get_setting (split_str CHR 0x0A text) ''system in unmapped'' = Inr v
      \<and> lower v \<noteq> ''false''"
  obtain sd0 mapped where
    r: "resolve_targets (active_sessions_of found) sys tis = (sd0, mapped)"
    by (cases "resolve_targets (active_sessions_of found) sys tis")
  let ?group = "SessionGroup u (filter (\<lambda>ses. ses \<notin> set mapped) (map snd (active_sessions_of found)))"
  have u: "resolve_unmapped (split_str CHR 0x0A text) tis (active_sessions_of found) sys
            (sd0, mapped) = Inr (dict_set sd0 u ?group)"
    using a by (simp add: resolve_unmapped_def assms(2))
  have "get_mapping text found c
          = Inr (c\<lparr>lines := split_str CHR 0x0A text, target_idxs := tis,
                   found_pycaw_sessions := found, sessions := dict_set sd0 u ?group\<rparr>)"
    using a by (simp add: get_mapping_def load_config_def assms(1) r u)
  moreover have "map_of (dict_set sd0 u ?group) u = Some ?group"
    by (simp add: map_of_dict_set)
  ultimately show "\<exists>c'. get_mapping text found c = Inr c'
                  \<and> map_of (sessions c') u = Some (SessionGroup u
                       (filter (\<lambda>ses. ses \<notin> set (snd (resolve_targets (active_sessions_of found)
                                                        sys tis)))
                          (map snd (active_sessions_of found))))"
    by (simp add: r)
qed

theorem system_in_unmapped_key_witness:
  "collect_targets (split_str CHR 0x0A no_key_config) [0..<nat (sliders (fresh_control 1))] []
     = Inr [(Str ''unmapped'', 0)]
   \<and> get_mapping no_key_config [chrome, system_process] (fresh_control 1) = Inl IndexError
   \<and> collect_targets (split_str CHR 0x0A with_key_config) [0..<nat (sliders (fresh_control 1))] []
     = Inr [(Str ''unmapped'', 0)]
   \<and> system_session_of [chrome, system_process] = Inr system_process
   \<and> get_setting (split_str CHR 0x0A with_key_config) ''system in unmapped'' = Inr ''True''
   \<and> lower ''True'' \<noteq> ''false''
   \<and> map_of (sessions \<lparr>lines = [''0: unmapped'', ''sliders: 1'', ''system in unmapped:True''],
            sliders = 1, inverted = False,
            target_idxs = [(Str ''unmapped'', 0)],
            found_pycaw_sessions = [chrome, system_process],
            sessions = [(0, SessionGroup 0 [chrome, system_process])]\<rparr>) 0
      = Some (SessionGroup 0
           (filter (\<lambda>ses. ses \<notin> set (snd (resolve_targets
               (active_sessions_of [chrome, system_process]) system_process [(Str ''unmapped'', 0)])))
              (map snd (active_sessions_of [chrome, system_process]))))"
proof -
  have t1: "collect_targets (split_str CHR 0x0A no_key_config)
      [0..<nat (sliders (fresh_control 1))] [] = Inr [(Str ''unmapped'', 0)]"
    by code_simp
  have t2: "collect_targets (split_str CHR 0x0A with_key_config)
      [0..<nat (sliders (fresh_control 1))] [] = Inr [(Str ''unmapped'', 0)]"
    by code_simp
  have u: "map_of [(Str ''unmapped'', 0 :: nat)] (Str ''unmapped'') = Some 0"
    by simp
  have none: "\<forall>l \<in> set (split_str CHR 0x0A no_key_config). \<not> str_contains ''system in unmapped:'' l"
    by code_simp
  have sys: "system_session_of [chrome, system_process] = Inr system_process"
    by code_simp
  have v: "get_setting (split_str CHR 0x0A with_key_config) ''system in unmapped'' = Inr ''True''"
    by code_simp
  have low: "lower ''True'' \<noteq> ''false''"
    by code_simp
  from system_in_unmapped_key [OF t1 u, of "[chrome, system_process]"] none
  have raised: "get_mapping no_key_config [chrome, system_process] (fresh_control 1) = Inl IndexError"
    by blast
  from system_in_unmapped_key [OF t2 u, of "[chrome, system_process]"] sys v low
  obtain c' where "get_mapping with_key_config [chrome, system_process] (fresh_control 1) = Inr c'"
    and "map_of (sessions c') 0 = Some (SessionGroup 0
           (filter (\<lambda>ses. ses \<notin> set (snd (resolve_targets
               (active_sessions_of [chrome, system_process]) system_process [(Str ''unmapped'', 0)])))
              (map snd (active_sessions_of [chrome, system_process]))))"
    by blast
  with with_key_get_mapping have bound: "map_of (sessions \<lparr>lines = [''0: unmapped'', ''sliders: 1'', ''system in unmapped:True''],
            sliders = 1, inverted = False,
            target_idxs = [(Str ''unmapped'', 0)],
            found_pycaw_sessions = [chrome, system_process],
            sessions = [(0, SessionGroup 0 [chrome, system_process])]\<rparr>) 0
      = Some (SessionGroup 0
           (filter (\<lambda>ses. ses \<notin> set (snd (resolve_targets
               (active_sessions_of [chrome, system_process]) system_process [(Str ''unmapped'', 0)])))
              (map snd (active_sessions_of [chrome, system_process]))))"
    by simp
  from t1 raised t2 sys v low bound show ?thesis by blast
qed

text \<open>
  C8, as the claim states it, fails: \<open>unmapped\<close> is declared, the key \<open>system in unmapped\<close> is
  omitted, and resolution raises \<open>IndexError\<close>.
\<close>

theorem omitted_key_raises:
  "get_mapping no_key_config [chrome, firefox, system_sounds] (fresh_control 1) = Inl IndexError"
  by code_simp

subsection \<open>Two indices with the same target\<close>

lemma collect_targets_step:
  "collect_targets ls (idx # idxs) tis =
     (case declared ls idx of
        Inl e \<Rightarrow> Inl e
      | Inr t \<Rightarrow> collect_targets ls idxs (dict_set tis t idx))"
  by (simp add: declared_def split: sum.splits)

lemma collect_targets_ConsE:
  assumes "collect_targets ls (idx # idxs) tis = Inr tis'"
  obtains t where "declared ls idx = Inr t"
    and "collect_targets ls idxs (dict_set tis t idx) = Inr tis'"
  using assms unfolding collect_targets_step
  by (cases "declared ls idx") simp_all

lemma dict_set_map_fst:
  "map fst (dict_set d k v) = (if k \<in> set (map fst d) then map fst d else map fst d @ [k])"
  by (induction d k v rule: dict_set.induct) auto

lemma dict_set_distinct_keys: "distinct (map fst d) \<Longrightarrow> distinct (map fst (dict_set d k v))"
  by (simp add: dict_set_map_fst)

lemma dict_set_values: "snd ` set (dict_set d k v) \<subseteq> insert v (snd ` set d)"
  using dict_set_subset [of d k v] by auto

lemma dict_set_distinct_values:
  "distinct (map snd d) \<Longrightarrow> v \<notin> snd ` set d \<Longrightarrow> distinct (map snd (dict_set d k v))"
proof (induction d k v rule: dict_set.induct)
  case (1 k v)
  then show ?case by simp
next
  case (2 k' v' d k v)
  show ?case
  proof (cases "k' = k")
    case True
    with "2.prems" show ?thesis by auto
  next
    case False
    from "2.prems" have d: "distinct (map snd d)" and v: "v \<notin> snd ` set d"
      and v': "v' \<notin> snd ` set d" and ne: "v' \<noteq> v"
      by auto
    from "2.IH" [OF False d v] have "distinct (map snd (dict_set d k v))" .
    moreover from dict_set_values [of d k v] v' ne have "v' \<notin> snd ` set (dict_set d k v)"
      by auto
    ultimately show ?thesis using False by simp
  qed
qed

text \<open>Invariant of the loop of lines 101 to 105: every entry of \<open>target_idxs\<close> is a declaration.\<close>

lemma collect_targets_invariant:
  assumes "collect_targets ls idxs tis = Inr tis'"
    and "distinct idxs" and "set idxs \<inter> snd ` set tis = {}"
    and "distinct (map fst tis)" and "distinct (map snd tis)"
    and "\<forall>p \<in> set tis. declared ls (snd p) = Inr (fst p)"
  shows "distinct (map fst tis') \<and> distinct (map snd tis')
       \<and> (\<forall>p \<in> set tis'. declared ls (snd p) = Inr (fst p))"
  using assms
proof (induction idxs arbitrary: tis)
  case Nil
  then show ?case by simp
next
  case (Cons idx idxs)
  from Cons.prems(1) obtain t where t: "declared ls idx = Inr t"
    and rest: "collect_targets ls idxs (dict_set tis t idx) = Inr tis'"
    by (rule collect_targets_ConsE)
  from Cons.prems(3) have fresh: "idx \<notin> snd ` set tis" by auto
  have sub: "set (dict_set tis t idx) \<subseteq> insert (t, idx) (set tis)"
    by (rule dict_set_subset)
  have "distinct idxs" using Cons.prems(2) by simp
  moreover have "set idxs \<inter> snd ` set (dict_set tis t idx) = {}"
    using dict_set_values [of tis t idx] Cons.prems(2,3) by auto
  moreover have "distinct (map fst (dict_set tis t idx))"
    using Cons.prems(4) by (rule dict_set_distinct_keys)
  moreover have "distinct (map snd (dict_set tis t idx))"
    using Cons.prems(5) fresh by (rule dict_set_distinct_values)
  moreover have "\<forall>p \<in> set (dict_set tis t idx). declared ls (snd p) = Inr (fst p)"
    using sub Cons.prems(6) t by auto
  ultimately show ?case
    by (rule Cons.IH [OF rest])
qed

lemma collect_targets_untouched:
  assumes "collect_targets ls idxs tis = Inr tis'"
    and "\<forall>k \<in> set idxs. declared ls k \<noteq> Inr t"
  shows "map_of tis' t = map_of tis t"
  using assms
proof (induction idxs arbitrary: tis)
  case Nil
  then show ?case by simp
next
  case (Cons idx idxs)
  from Cons.prems(1) obtain t' where t': "declared ls idx = Inr t'"
    and rest: "collect_targets ls idxs (dict_set tis t' idx) = Inr tis'"
    by (rule collect_targets_ConsE)
  from Cons.prems(2) t' have "t' \<noteq> t" by auto
  moreover from Cons.prems(2) have "\<forall>k \<in> set idxs. declared ls k \<noteq> Inr t" by simp
  from Cons.IH [OF rest this] have "map_of tis' t = map_of (dict_set tis t' idx) t" .
  ultimately show ?case by (simp add: map_of_dict_set)
qed

text \<open>A target declared at \<open>j\<close> ends up stored with an index that is not below \<open>j\<close>.\<close>

lemma collect_targets_later:
  assumes "collect_targets ls idxs tis = Inr tis'"
    and "j \<in> set idxs" and "declared ls j = Inr t" and "sorted idxs"
  shows "\<exists>j'. j \<le> j' \<and> j' \<in> set idxs \<and> map_of tis' t = Some j'"
  using assms
proof (induction idxs arbitrary: tis j)
  case Nil
  then show ?case by simp
next
  case (Cons idx idxs)
  from Cons.prems(1) obtain t' where t': "declared ls idx = Inr t'"
    and rest: "collect_targets ls idxs (dict_set tis t' idx) = Inr tis'"
    by (rule collect_targets_ConsE)
  from Cons.prems(4) have sorted: "sorted idxs" and least: "\<forall>k \<in> set idxs. idx \<le> k"
    by simp_all
  show ?case
  proof (cases "\<exists>k \<in> set idxs. declared ls k = Inr t")
    case True
    then obtain k where k: "k \<in> set idxs" "declared ls k = Inr t" by blast
    show ?thesis
    proof (cases "j = idx")
      case True
      from Cons.IH [OF rest k sorted] obtain j' where
        j': "k \<le> j'" "j' \<in> set idxs" "map_of tis' t = Some j'" by blast
      from least j'(2) True have "j \<le> j'" by simp
      with j' show ?thesis by auto
    next
      case False
      with Cons.prems(2) have "j \<in> set idxs" by simp
      from Cons.IH [OF rest this Cons.prems(3) sorted] show ?thesis by auto
    qed
  next
    case False
    with Cons.prems(2,3) have j: "j = idx" by auto
    with Cons.prems(3) t' have "t' = t" by simp
    from False have "\<forall>k \<in> set idxs. declared ls k \<noteq> Inr t" by simp
    from collect_targets_untouched [OF rest this]
    have "map_of tis' t = Some idx" by (simp add: map_of_dict_set \<open>t' = t\<close>)
    with j show ?thesis by auto
  qed
qed

lemma resolve_target_other_key:
  "idx \<noteq> j \<Longrightarrow> map_of (fst (resolve_target active sys (t, idx) st)) j = map_of (fst st) j"
  by (cases st; cases t) (auto simp: map_of_dict_set split: option.splits prod.splits)

lemma resolve_targets_other_keys:
  "\<forall>p \<in> set tis. snd p \<noteq> j \<Longrightarrow>
   map_of (fst (foldl (\<lambda>st ti. resolve_target active sys ti st) st tis)) j = map_of (fst st) j"
proof (induction tis arbitrary: st)
  case Nil
  then show ?case by simp
next
  case (Cons ti tis)
  obtain t idx where ti: "ti = (t, idx)" by (cases ti)
  from Cons.prems ti have "idx \<noteq> j" and rest: "\<forall>p \<in> set tis. snd p \<noteq> j" by auto
  from Cons.IH [OF rest, of "resolve_target active sys ti st"]
    resolve_target_other_key [OF \<open>idx \<noteq> j\<close>, of active sys t st]
  show ?case by (simp add: ti)
qed

text \<open>The members of a group do not depend on what was mapped before.\<close>

lemma resolve_group_members:
  "fst (resolve_group active names (g, m)) = fst (resolve_group active names (g, []))"
proof (induction names arbitrary: g m)
  case Nil
  then show ?case by simp
next
  case (Cons n names)
  show ?case
  proof (cases "lower n \<in> set [''master'', ''system'', ''unmapped'']")
    case True
    with Cons.IH [of g m] show ?thesis by simp
  next
    case False
    show ?thesis
    proof (cases "map_of active (lower n)")
      case None
      with False Cons.IH [of g m] show ?thesis by simp
    next
      case (Some s)
      with False Cons.IH [of "g @ [s]" "m @ [s]"] Cons.IH [of "g @ [s]" "[s]"]
      show ?thesis by simp
    qed
  qed
qed

text \<open>What one round of the loop leaves at its own index: its object, or what was there.\<close>

lemma resolve_target_at:
  "map_of (fst (resolve_target active sys (t, j) (sd, m))) j =
     (case map_of (fst (resolve_target active sys (t, j) ([], []))) j of
        None \<Rightarrow> map_of sd j
      | Some obj \<Rightarrow> Some obj)"
proof (cases t)
  case (Str name)
  then show ?thesis
    by (simp add: map_of_dict_set split: option.splits)
next
  case (Tuple names)
  obtain g m' where r: "resolve_group active names ([], m) = (g, m')"
    by (cases "resolve_group active names ([], m)")
  obtain g0 m0 where r0: "resolve_group active names ([], []) = (g0, m0)"
    by (cases "resolve_group active names ([], [])")
  from resolve_group_members [of active names "[]" m] r r0 have "g = g0" by simp
  with Tuple r r0 show ?thesis
    by (simp add: map_of_dict_set)
qed

lemma resolve_targets_binding_aux:
  assumes "distinct (map snd tis)" and "(t, j) \<in> set tis" and "j \<notin> fst ` set (fst st)"
  shows "map_of (fst (foldl (\<lambda>st ti. resolve_target active sys ti st) st tis)) j
           = map_of (fst (resolve_target active sys (t, j) ([], []))) j"
  using assms
proof (induction tis arbitrary: st)
  case Nil
  then show ?case by simp
next
  case (Cons ti tis)
  obtain sd m where st: "st = (sd, m)" by (cases st)
  show ?case
  proof (cases "ti = (t, j)")
    case True
    from Cons.prems(1) True have "\<forall>p \<in> set tis. snd p \<noteq> j" by (auto simp: image_iff)
    from resolve_targets_other_keys [OF this, of active sys "resolve_target active sys ti st"]
    have "map_of (fst (foldl (\<lambda>st ti. resolve_target active sys ti st) st (ti # tis))) j
            = map_of (fst (resolve_target active sys (t, j) (sd, m))) j"
      by (simp add: True st)
    moreover from Cons.prems(3) st have "map_of sd j = None"
      by (simp add: map_of_eq_None_iff)
    ultimately show ?thesis
      by (simp add: resolve_target_at [of active sys t j sd m] split: option.splits)
  next
    case False
    obtain t' idx where ti: "ti = (t', idx)" by (cases ti)
    from False Cons.prems(2) have mem: "(t, j) \<in> set tis" by simp
    from Cons.prems(1) have d: "distinct (map snd tis)" and "snd ti \<notin> snd ` set tis" by simp_all
    with mem ti have "idx \<noteq> j" by force
    with resolve_target_keys [of active sys t' idx st] Cons.prems(3)
    have "j \<notin> fst ` set (fst (resolve_target active sys ti st))"
      by (auto simp: ti)
    from Cons.IH [OF d mem this] show ?thesis by simp
  qed
qed

lemma resolve_targets_binding:
  assumes "distinct (map snd tis)" and "(t, j) \<in> set tis"
  shows "map_of (fst (resolve_targets active sys tis)) j
           = map_of (fst (resolve_target active sys (t, j) ([], []))) j"
  unfolding resolve_targets_def
  by (rule resolve_targets_binding_aux [OF assms]) simp

lemma lower_unmapped: "lower ''unmapped'' = ''unmapped''"
  by code_simp

lemma same_target_get_mapping:
  "get_mapping same_target_config [chrome, firefox, system_sounds] (fresh_control 4)
     = Inr same_target_resolved"
  by code_simp

lemma same_group_get_mapping:
  "get_mapping same_group_config [chrome, firefox, system_sounds] (fresh_control 4)
     = Inr same_group_resolved"
  by code_simp

text \<open>
  C10. When two indices \<open>i < j\<close> below the number of sliders declare the same target, \<open>i\<close> is
  left unbound. When \<open>j\<close> is the highest index that declares it, \<open>target_idxs\<close> holds the
  target with \<open>j\<close>, and \<open>j\<close> is bound to what the target stands for: the master volume, the
  system session, the session of the process when it is live (nothing when it is not), the
  unmapped group, or the group of the live processes among the names of a list (nothing when
  none is live).
\<close>

theorem same_target_higher_index_bound:
  assumes "get_mapping text found c = Inr c'"
    and "get_setting (lines c') (str i) = Inr a" and "get_setting (lines c') (str j) = Inr b"
    and "target_key a = target_key b"
    and "i < j" and "int j < sliders c"
  shows "map_of (sessions c') i = None
       \<and> ((\<forall>k. j < k \<and> int k < sliders c \<longrightarrow> declared (lines c') k \<noteq> Inr (target_key b))
            \<longrightarrow> map_of (target_idxs c') (target_key b) = Some j
              \<and> (CHR '','' \<notin> set b \<and> lower b = ''master''
                    \<longrightarrow> map_of (sessions c') j = Some (Master j))
              \<and> (CHR '','' \<notin> set b \<and> lower b = ''system''
                    \<longrightarrow> (\<exists>sys. system_session_of found = Inr sys
                            \<and> map_of (sessions c') j = Some (System j sys)))
              \<and> (CHR '','' \<notin> set b \<and> lower b \<notin> set [''master'', ''system'', ''unmapped'']
                    \<longrightarrow> map_of (sessions c') j =
                          (case map_of (active_sessions_of found) (lower b) of
                             None \<Rightarrow> None
                           | Some s \<Rightarrow> Some (Session j s)))
              \<and> (b = ''unmapped''
                    \<longrightarrow> (\<exists>members. map_of (sessions c') j = Some (SessionGroup j members)))
              \<and> (CHR '','' \<in> set b
                    \<longrightarrow> map_of (sessions c') j =
                          (if fst (resolve_group (active_sessions_of found)
                                     (map strip (split_str CHR '','' b)) ([], [])) = []
                           then None
                           else Some (SessionGroup j
                                  (fst (resolve_group (active_sessions_of found)
                                          (map strip (split_str CHR '','' b)) ([], [])))))))"
proof -
  let ?ls = "split_str CHR 0x0A text"
  let ?n = "nat (sliders c)"
  let ?active = "active_sessions_of found"
  let ?t = "target_key b"
  from assms(1) obtain tis sys sd where
    tis: "collect_targets ?ls [0..<?n] [] = Inr tis"
    and sys: "system_session_of found = Inr sys"
    and sd: "resolve_unmapped ?ls tis ?active sys (resolve_targets ?active sys tis) = Inr sd"
    and c': "c' = c\<lparr>lines := ?ls, target_idxs := tis, found_pycaw_sessions := found,
                     sessions := sd\<rparr>"
    by (rule get_mapping_Inr)
  have fields: "sessions c' = sd" "target_idxs c' = tis" "lines c' = ?ls"
    by (simp_all add: c')
  from assms(2,3,4) have di: "declared ?ls i = Inr ?t" and dj: "declared ?ls j = Inr ?t"
    by (simp_all add: declared_def fields)
  from assms(6) have jn: "j < ?n" by simp
  have inv: "distinct (map fst tis) \<and> distinct (map snd tis)
       \<and> (\<forall>p \<in> set tis. declared ?ls (snd p) = Inr (fst p))"
    by (rule collect_targets_invariant [OF tis]) simp_all
  from collect_targets_later [OF tis _ dj] jn obtain j' where
    j': "j \<le> j'" "j' < ?n" "map_of tis ?t = Some j'" by auto
  have stored: "(?t, j') \<in> set tis" using j'(3) by (rule map_of_SomeD)
  have "i \<notin> snd ` set tis"
  proof
    assume "i \<in> snd ` set tis"
    then obtain t' where mem: "(t', i) \<in> set tis" by auto
    with inv di have "t' = ?t" by fastforce
    with mem inv have "map_of tis ?t = Some i" by simp
    with j'(1,3) assms(5) show False by simp
  qed
  with resolve_unmapped_keys [OF sd] resolve_targets_keys [of ?active sys tis]
  have "i \<notin> fst ` set sd" by auto
  then have unbound: "map_of sd i = None"
    by (simp add: map_of_eq_None_iff)
  have last: "map_of tis ?t = Some j
       \<and> (CHR '','' \<notin> set b \<and> lower b = ''master'' \<longrightarrow> map_of sd j = Some (Master j))
       \<and> (CHR '','' \<notin> set b \<and> lower b = ''system''
             \<longrightarrow> (\<exists>sys. system_session_of found = Inr sys \<and> map_of sd j = Some (System j sys)))
       \<and> (CHR '','' \<notin> set b \<and> lower b \<notin> set [''master'', ''system'', ''unmapped'']
             \<longrightarrow> map_of sd j = (case map_of ?active (lower b) of
                                    None \<Rightarrow> None
                                  | Some s \<Rightarrow> Some (Session j s)))
       \<and> (b = ''unmapped'' \<longrightarrow> (\<exists>members. map_of sd j = Some (SessionGroup j members)))
       \<and> (CHR '','' \<in> set b
             \<longrightarrow> map_of sd j =
                   (if fst (resolve_group ?active (map strip (split_str CHR '','' b)) ([], [])) = []
                    then None
                    else Some (SessionGroup j
                           (fst (resolve_group ?active
                                   (map strip (split_str CHR '','' b)) ([], []))))))"
    if highest: "\<forall>k. j < k \<and> int k < sliders c \<longrightarrow> declared ?ls k \<noteq> Inr ?t"
  proof -
    from inv stored have "declared ?ls j' = Inr ?t" by fastforce
    with highest j'(1,2) have "j' = j"
      by (cases "j < j'") auto
    with j'(3) stored have at_j: "map_of tis ?t = Some j" and mem: "(?t, j) \<in> set tis"
      by simp_all
    obtain sd0 mapped where r: "resolve_targets ?active sys tis = (sd0, mapped)"
      by (cases "resolve_targets ?active sys tis")
    from inv have dv: "distinct (map snd tis)" by simp
    from resolve_targets_binding [OF dv mem, of ?active sys] r
    have loop: "map_of sd0 j = map_of (fst (resolve_target ?active sys (?t, j) ([], []))) j"
      by simp
    have explicit: "map_of sd j = map_of (fst (resolve_target ?active sys (?t, j) ([], []))) j"
      if other: "?t \<noteq> Str ''unmapped''"
    proof (cases "map_of tis (Str ''unmapped'')")
      case None
      with sd r have "sd = sd0" by (simp add: resolve_unmapped_None)
      with loop show ?thesis by simp
    next
      case (Some u)
      from sd [unfolded r] Some obtain members
        where sd_eq: "sd = dict_set sd0 u (SessionGroup u members)"
        by (rule resolve_unmapped_Some)
      have "u \<noteq> j"
      proof
        assume "u = j"
        with Some have "(Str ''unmapped'', j) \<in> set tis" by (auto dest: map_of_SomeD)
        with mem dv have "Str ''unmapped'' = ?t"
          by (metis fst_conv snd_conv distinct_map inj_on_def)
        with other show False by simp
      qed
      with loop show ?thesis by (simp add: sd_eq map_of_dict_set)
    qed
    have master: "map_of sd j = Some (Master j)"
      if "CHR '','' \<notin> set b \<and> lower b = ''master''"
    proof -
      from that have key: "?t = Str b" by (simp add: target_key_def)
      from that lower_unmapped have "b \<noteq> ''unmapped''" by auto
      with key explicit have "map_of sd j = map_of (fst (resolve_target ?active sys (Str b, j) ([], []))) j"
        by simp
      with that show ?thesis by simp
    qed
    have system: "\<exists>sys. system_session_of found = Inr sys \<and> map_of sd j = Some (System j sys)"
      if "CHR '','' \<notin> set b \<and> lower b = ''system''"
    proof -
      from that have key: "?t = Str b" by (simp add: target_key_def)
      from that lower_unmapped have "b \<noteq> ''unmapped''" by auto
      with key explicit have "map_of sd j = map_of (fst (resolve_target ?active sys (Str b, j) ([], []))) j"
        by simp
      with that have "map_of sd j = Some (System j sys)" by simp
      with sys show ?thesis by blast
    qed
    have process: "map_of sd j = (case map_of ?active (lower b) of
                                    None \<Rightarrow> None
                                  | Some s \<Rightarrow> Some (Session j s))"
      if "CHR '','' \<notin> set b \<and> lower b \<notin> set [''master'', ''system'', ''unmapped'']"
    proof -
      from that have key: "?t = Str b" by (simp add: target_key_def)
      from that lower_unmapped have "b \<noteq> ''unmapped''" by auto
      with key explicit have "map_of sd j = map_of (fst (resolve_target ?active sys (Str b, j) ([], []))) j"
        by simp
      with that show ?thesis by (simp split: option.splits)
    qed
    have unmapped: "\<exists>members. map_of sd j = Some (SessionGroup j members)"
      if "b = ''unmapped''"
    proof -
      from that have key: "?t = Str ''unmapped''" by (simp add: target_key_def)
      with at_j have u: "map_of tis (Str ''unmapped'') = Some j" by simp
      from sd [unfolded r] u obtain members
        where "sd = dict_set sd0 j (SessionGroup j members)"
        by (rule resolve_unmapped_Some)
      then have "map_of sd j = Some (SessionGroup j members)"
        by (simp add: map_of_dict_set)
      then show ?thesis by blast
    qed
    have group: "map_of sd j =
                   (if fst (resolve_group ?active (map strip (split_str CHR '','' b)) ([], [])) = []
                    then None
                    else Some (SessionGroup j
                           (fst (resolve_group ?active
                                   (map strip (split_str CHR '','' b)) ([], [])))))"
      if "CHR '','' \<in> set b"
    proof -
      let ?names = "map strip (split_str CHR '','' b)"
      from that have key: "?t = Tuple ?names" by (simp add: target_key_def)
      with explicit have e: "map_of sd j = map_of (fst (resolve_target ?active sys (Tuple ?names, j) ([], []))) j"
        by simp
      obtain g m' where rg: "resolve_group ?active ?names ([], []) = (g, m')"
        by (cases "resolve_group ?active ?names ([], [])")
      show ?thesis
        unfolding e by (simp add: rg)
    qed
    from at_j master system process unmapped group show ?thesis by blast
  qed
  show ?thesis
    unfolding fields using unbound last by blast
qed

theorem same_target_higher_index_bound_witness:
  "get_mapping same_target_config [chrome, firefox, system_sounds] (fresh_control 4)
     = Inr same_target_resolved
   \<and> get_setting (lines same_target_resolved) (str 0) = Inr ''chrome.exe''
   \<and> get_setting (lines same_target_resolved) (str 3) = Inr ''chrome.exe''
   \<and> map_of (sessions same_target_resolved) 0 = None
   \<and> map_of (target_idxs same_target_resolved) (Str ''chrome.exe'') = Some 3
   \<and> map_of (sessions same_target_resolved) 3 = Some (Session 3 chrome)
   \<and> get_mapping same_group_config [chrome, firefox, system_sounds] (fresh_control 4)
     = Inr same_group_resolved
   \<and> get_setting (lines same_group_resolved) (str 0) = Inr ''chrome.exe, firefox.exe''
   \<and> get_setting (lines same_group_resolved) (str 3) = Inr ''chrome.exe, firefox.exe''
   \<and> map_of (sessions same_group_resolved) 0 = None
   \<and> map_of (target_idxs same_group_resolved) (Tuple [''chrome.exe'', ''firefox.exe'']) = Some 3
   \<and> map_of (sessions same_group_resolved) 3 = Some (SessionGroup 3 [chrome, firefox])
   \<and> get_setting (lines same_group_resolved) (str 1) = Inr ''master''
   \<and> get_setting (lines same_group_resolved) (str 2) = Inr ''master''
   \<and> map_of (sessions same_group_resolved) 1 = None
   \<and> map_of (sessions same_group_resolved) 2 = Some (Master 2)"
proof -
  let ?found = "[chrome, firefox, system_sounds]"
  have bound3: "int 3 < sliders (fresh_control 4)" and bound2: "int 2 < sliders (fresh_control 4)"
    by (simp_all add: fresh_control_def)
  have lt03: "(0 :: nat) < 3" and lt12: "(1 :: nat) < 2"
    by simp_all
  have p0: "get_setting (lines same_target_resolved) (str 0) = Inr ''chrome.exe''"
    by code_simp
  have p3: "get_setting (lines same_target_resolved) (str 3) = Inr ''chrome.exe''"
    by code_simp
  have pkey: "target_key ''chrome.exe'' = Str ''chrome.exe''"
    by code_simp
  have phigh: "\<forall>k. 3 < k \<and> int k < sliders (fresh_control 4)
      \<longrightarrow> declared (lines same_target_resolved) k \<noteq> Inr (target_key ''chrome.exe'')"
    by (auto simp: fresh_control_def)
  have pname: "CHR '','' \<notin> set ''chrome.exe''
      \<and> lower ''chrome.exe'' \<notin> set [''master'', ''system'', ''unmapped'']"
    by code_simp
  have plive: "map_of (active_sessions_of ?found) (lower ''chrome.exe'') = Some chrome"
    by code_simp
  note p = same_target_higher_index_bound [OF same_target_get_mapping p0 p3 refl lt03 bound3]
  have p_unbound: "map_of (sessions same_target_resolved) 0 = None"
    by (rule conjunct1 [OF p])
  note p_last = mp [OF conjunct2 [OF p] phigh]
  have p_stored: "map_of (target_idxs same_target_resolved) (Str ''chrome.exe'') = Some 3"
    using conjunct1 [OF p_last] unfolding pkey .
  have "map_of (sessions same_target_resolved) 3 =
          (case map_of (active_sessions_of ?found) (lower ''chrome.exe'') of
             None \<Rightarrow> None | Some s \<Rightarrow> Some (Session 3 s))"
    using p_last pname by blast
  then have p_bound: "map_of (sessions same_target_resolved) 3 = Some (Session 3 chrome)"
    by (simp only: plive option.case)
  have g0: "get_setting (lines same_group_resolved) (str 0) = Inr ''chrome.exe, firefox.exe''"
    by code_simp
  have g3: "get_setting (lines same_group_resolved) (str 3) = Inr ''chrome.exe, firefox.exe''"
    by code_simp
  have gkey: "target_key ''chrome.exe, firefox.exe'' = Tuple [''chrome.exe'', ''firefox.exe'']"
    by code_simp
  have ghigh: "\<forall>k. 3 < k \<and> int k < sliders (fresh_control 4)
      \<longrightarrow> declared (lines same_group_resolved) k \<noteq> Inr (target_key ''chrome.exe, firefox.exe'')"
    by (auto simp: fresh_control_def)
  have gcomma: "CHR '','' \<in> set ''chrome.exe, firefox.exe''"
    by code_simp
  have gmembers: "fst (resolve_group (active_sessions_of ?found)
      (map strip (split_str CHR '','' ''chrome.exe, firefox.exe'')) ([], [])) = [chrome, firefox]"
    by code_simp
  note g = same_target_higher_index_bound [OF same_group_get_mapping g0 g3 refl lt03 bound3]
  have g_unbound: "map_of (sessions same_group_resolved) 0 = None"
    by (rule conjunct1 [OF g])
  note g_last = mp [OF conjunct2 [OF g] ghigh]
  have g_stored: "map_of (target_idxs same_group_resolved) (Tuple [''chrome.exe'', ''firefox.exe''])
      = Some 3"
    using conjunct1 [OF g_last] unfolding gkey .
  have "map_of (sessions same_group_resolved) 3 =
          (if fst (resolve_group (active_sessions_of ?found)
                     (map strip (split_str CHR '','' ''chrome.exe, firefox.exe'')) ([], [])) = []
           then None
           else Some (SessionGroup 3 (fst (resolve_group (active_sessions_of ?found)
                     (map strip (split_str CHR '','' ''chrome.exe, firefox.exe'')) ([], [])))))"
    using g_last gcomma by blast
  then have g_bound: "map_of (sessions same_group_resolved) 3 = Some (SessionGroup 3 [chrome, firefox])"
    by (simp only: gmembers list.distinct if_False)
  have m1: "get_setting (lines same_group_resolved) (str 1) = Inr ''master''"
    by code_simp
  have m2: "get_setting (lines same_group_resolved) (str 2) = Inr ''master''"
    by code_simp
  have d3: "declared (lines same_group_resolved) 3 \<noteq> Inr (target_key ''master'')"
    by code_simp
  have mhigh: "\<forall>k. 2 < k \<and> int k < sliders (fresh_control 4)
      \<longrightarrow> declared (lines same_group_resolved) k \<noteq> Inr (target_key ''master'')"
  proof (intro allI impI)
    fix k :: nat
    assume "2 < k \<and> int k < sliders (fresh_control 4)"
    then have "k = 3" by (simp add: fresh_control_def)
    with d3 show "declared (lines same_group_resolved) k \<noteq> Inr (target_key ''master'')"
      by simp
  qed
  have mname: "CHR '','' \<notin> set ''master'' \<and> lower ''master'' = ''master''"
    by code_simp
  note m = same_target_higher_index_bound [OF same_group_get_mapping m1 m2 refl lt12 bound2]
  have m_unbound: "map_of (sessions same_group_resolved) 1 = None"
    by (rule conjunct1 [OF m])
  note m_last = mp [OF conjunct2 [OF m] mhigh]
  have m_bound: "map_of (sessions same_group_resolved) 2 = Some (Master 2)"
    using m_last mname by blast
  from same_target_get_mapping p0 p3 p_unbound p_stored p_bound
    same_group_get_mapping g0 g3 g_unbound g_stored g_bound m1 m2 m_unbound m_bound
  show ?thesis by blast
qed

end
